theory Spec2Isabelle
  imports Main "HOL-Library.Word"
begin

section \<open>Buffers and the platform operations the code relies on\<close>

text \<open>
  A Node \<open>Buffer\<close> is a fixed-length array of bytes; it is modelled as a list of
  8-bit words. Device offsets and lengths are JavaScript numbers holding integers
  and are modelled as \<open>int\<close>.
\<close>

type_synonym byte = "8 word"
type_synonym buffer = "byte list"

text \<open>Exceptions the JavaScript runtime throws on the paths modelled here.\<close>

datatype js_error = TypeError | RangeError

text \<open>
  \<open>buf.slice(start, end)\<close> of Node: a negative index counts from the end of the
  buffer, both indices are clamped to the buffer, and an empty range gives the empty
  buffer.
\<close>

definition clamp_index :: "int \<Rightarrow> int \<Rightarrow> int" where
  "clamp_index n i = (if i < 0 then max 0 (n + i) else min i n)"

definition buffer_slice :: "buffer \<Rightarrow> int \<Rightarrow> int \<Rightarrow> buffer" where
  "buffer_slice buf s e =
     (let n = int (length buf); s' = clamp_index n s; e' = clamp_index n e
      in if e' \<le> s' then [] else take (nat (e' - s')) (drop (nat s') buf))"

text \<open>
  \<open>source.copy(target, targetStart, sourceStart, sourceEnd)\<close> of Node: a negative
  index raises a RangeError; nothing is copied when \<open>targetStart\<close> is at or past the
  end of the target or when the source range is empty; a \<open>sourceStart\<close> past the end
  of the source raises a RangeError; otherwise the bytes
  \<open>source[sourceStart .. sourceEnd)\<close> are written at \<open>targetStart\<close>, cut off at the
  end of the target. The target keeps its length.
\<close>

definition buffer_copy :: "buffer \<Rightarrow> buffer \<Rightarrow> int \<Rightarrow> int \<Rightarrow> int \<Rightarrow> js_error + buffer" where
  "buffer_copy source target targetStart sourceStart sourceEnd =
     (if targetStart < 0 \<or> sourceStart < 0 \<or> sourceEnd < 0 then Inl RangeError
      else if targetStart \<ge> int (length target) \<or> sourceStart \<ge> sourceEnd then Inr target
      else if sourceStart > int (length source) then Inl RangeError
      else
        (let bytes = take (nat (int (length target) - targetStart))
                       (take (nat (sourceEnd - sourceStart)) (drop (nat sourceStart) source))
         in Inr (take (nat targetStart) target @ bytes
                   @ drop (nat targetStart + length bytes) target)))"

text \<open>\<open>Buffer.alloc(size)\<close>: a zero-filled buffer; a negative size raises a RangeError.\<close>

definition buffer_alloc :: "int \<Rightarrow> js_error + buffer" where
  "buffer_alloc n = (if n < 0 then Inl RangeError else Inr (replicate (nat n) 0))"

text \<open>
  Modelled from the spec: the function \<open>iisect\<close> of the package
  \<open>interval-intersection\<close>, which the repository imports and does not contain. The
  spec reads it as the intersection of two closed intervals (\<open>intersects\<close> is true iff
  the closed intervals overlap); the result is \<open>null\<close>, here \<open>None\<close>, when they do not
  meet.
\<close>

definition iisect :: "int \<times> int \<Rightarrow> int \<times> int \<Rightarrow> (int \<times> int) option" where
  "iisect a b =
     (let lo = max (fst a) (fst b); hi = min (snd a) (snd b)
      in if lo \<le> hi then Some (lo, hi) else None)"


section \<open>Disk chunks\<close>

text \<open>
  The two concrete subclasses of \<open>DiskChunk\<close>. A \<open>BufferDiskChunk\<close> is built by its
  constructor only, which sets \<open>end = offset + buffer.length - 1\<close>, and no field is
  assigned afterwards: the value \<open>Data offset buffer\<close> stands for it and
  \<open>chunk_end\<close> computes the field. A \<open>DiscardDiskChunk\<close> stores no bytes:
  \<open>Discard start end\<close>.
\<close>

datatype chunk = Data int buffer | Discard int int

fun chunk_start :: "chunk \<Rightarrow> int" where
  "chunk_start (Data offset buf) = offset"
| "chunk_start (Discard s e) = s"

fun chunk_end :: "chunk \<Rightarrow> int" where
  "chunk_end (Data offset buf) = offset + int (length buf) - 1"
| "chunk_end (Discard s e) = e"

fun is_discard :: "chunk \<Rightarrow> bool" where
  "is_discard (Data offset buf) = False"
| "is_discard (Discard s e) = True"

definition BufferDiskChunk :: "buffer \<Rightarrow> int \<Rightarrow> chunk" where
  "BufferDiskChunk buf offset = Data offset buf"

definition DiscardDiskChunk :: "int \<Rightarrow> int \<Rightarrow> chunk" where
  "DiscardDiskChunk offset len = Discard offset (offset + len - 1)"

definition interval :: "chunk \<Rightarrow> int \<times> int" where
  "interval c = (chunk_start c, chunk_end c)"

definition intersection :: "chunk \<Rightarrow> chunk \<Rightarrow> (int \<times> int) option" where
  "intersection c other = iisect (interval c) (interval other)"

definition intersects :: "chunk \<Rightarrow> chunk \<Rightarrow> bool" where
  "intersects c other = (intersection c other \<noteq> None)"

definition includedIn :: "chunk \<Rightarrow> chunk \<Rightarrow> bool" where
  "includedIn c other = (chunk_start c \<ge> chunk_start other \<and> chunk_end c \<le> chunk_end other)"

text \<open>\<open>slice(start, end)\<close>: both arguments are device offsets, \<open>end\<close> included.\<close>

fun slice :: "chunk \<Rightarrow> int \<Rightarrow> int \<Rightarrow> chunk" where
  "slice (Data offset buf) s e =
     (let startInBuffer = s - offset
      in BufferDiskChunk (buffer_slice buf startInBuffer (startInBuffer + e - s + 1)) s)"
| "slice (Discard s0 e0) s e = DiscardDiskChunk s (e - s + 1)"

text \<open>\<open>data()\<close>: the stored buffer, or freshly allocated zeros for a discard.\<close>

fun data :: "chunk \<Rightarrow> js_error + buffer" where
  "data (Data offset buf) = Inr buf"
| "data (Discard s e) = buffer_alloc (e - s + 1)"

text \<open>
  \<open>cut(other)\<close>. When the two chunks do not intersect, \<open>intersection\<close> is \<open>null\<close> and
  indexing it raises a TypeError.
\<close>

definition cut :: "chunk \<Rightarrow> chunk \<Rightarrow> js_error + chunk list" where
  "cut c other =
     (case intersection c other of
        None \<Rightarrow> Inl TypeError
      | Some (i0, i1) \<Rightarrow>
          Inr ((if i0 > chunk_start c then [slice c (chunk_start c) (i0 - 1)] else [])
             @ (if chunk_end c > i1 then [slice c (i1 + 1) (chunk_end c)] else [])))"

text \<open>Vocabulary for stating properties of chunks.\<close>

definition covers :: "chunk \<Rightarrow> int \<Rightarrow> bool" where
  "covers c p = (chunk_start c \<le> p \<and> p \<le> chunk_end c)"

definition chunk_length :: "chunk \<Rightarrow> int" where
  "chunk_length c = chunk_end c - chunk_start c + 1"

definition intersection_length :: "chunk \<Rightarrow> chunk \<Rightarrow> int" where
  "intersection_length c other =
     (case intersection c other of None \<Rightarrow> 0 | Some (i0, i1) \<Rightarrow> i1 - i0 + 1)"

text \<open>The byte a chunk holds for device offset \<open>p\<close> (zero for a discard).\<close>

fun byte_at :: "chunk \<Rightarrow> int \<Rightarrow> byte" where
  "byte_at (Data offset buf) p = buf ! nat (p - offset)"
| "byte_at (Discard s e) p = 0"


section \<open>The chunk store\<close>

text \<open>
  \<open>Array.prototype.splice(start, deleteCount, ...items)\<close> for a start index that is
  not negative: an index past the end is clamped to the length of the array.
\<close>

definition splice :: "'a list \<Rightarrow> nat \<Rightarrow> nat \<Rightarrow> 'a list \<Rightarrow> 'a list" where
  "splice xs i deleteCount items = take i xs @ items @ drop (i + deleteCount) xs"

text \<open>
  The \<open>for\<close> loop of \<open>_insertDiskChunk\<close>, one call per iteration, with the loop
  variables \<open>i\<close> and \<open>insertAt\<close> and the array \<open>knownChunks\<close> as arguments. The
  argument \<open>i\<close> of a recursive call is the index after the loop's own \<open>i++\<close>:
  \<open>continue\<close> gives \<open>i + 1\<close>, the deletion (\<open>i--\<close>) gives \<open>i\<close> again, and the cut
  (\<open>i += newChunks.length - 1\<close>) gives \<open>i + newChunks.length\<close>. \<open>break\<close> and the end
  of the array return \<open>insertAt\<close> and the array.
\<close>

function insert_loop :: "chunk \<Rightarrow> nat \<Rightarrow> nat \<Rightarrow> chunk list \<Rightarrow> js_error + (nat \<times> chunk list)" where
  "insert_loop chunk i insertAt knownChunks =
     (if i < length knownChunks then
        (let other = knownChunks ! i in
         if chunk_start other > chunk_end chunk then Inr (insertAt, knownChunks)
         else
           (let insertAt' = (if chunk_start other < chunk_start chunk then i + 1 else i) in
            if \<not> intersects chunk other then insert_loop chunk (i + 1) insertAt' knownChunks
            else if includedIn other chunk then
              insert_loop chunk i insertAt' (splice knownChunks i 1 [])
            else
              (case cut other chunk of
                 Inl err \<Rightarrow> Inl err
               | Inr newChunks \<Rightarrow>
                   insert_loop chunk (i + length newChunks) insertAt'
                     (splice knownChunks i 1 newChunks))))
      else Inr (insertAt, knownChunks))"
  by pat_completeness auto
termination
  by (relation "measure (\<lambda>(chunk, i, insertAt, knownChunks). length knownChunks - i)")
     (auto simp: splice_def)

declare insert_loop.simps [simp del]

text \<open>
  \<open>_insertDiskChunk(chunk, insert)\<close> on the array \<open>knownChunks\<close>; the parameter
  \<open>insert\<close> defaults to \<open>true\<close> at the call sites that leave it out.
\<close>

definition insertDiskChunk :: "chunk \<Rightarrow> bool \<Rightarrow> chunk list \<Rightarrow> js_error + chunk list" where
  "insertDiskChunk chunk ins knownChunks =
     (case insert_loop chunk 0 0 knownChunks of
        Inl err \<Rightarrow> Inl err
      | Inr (insertAt, ks) \<Rightarrow> Inr (if ins then splice ks insertAt 0 [chunk] else ks))"

text \<open>
  The invariant of the store: every chunk holds at least one byte (\<open>start \<le> end\<close>),
  the chunks are sorted ascending by \<open>start\<close>, and no two of them intersect.
\<close>

definition nonempty :: "chunk \<Rightarrow> bool" where
  "nonempty c = (chunk_start c \<le> chunk_end c)"

definition store_inv :: "chunk list \<Rightarrow> bool" where
  "store_inv ks =
     (list_all nonempty ks
      \<and> sorted_wrt (\<lambda>a b. chunk_start a \<le> chunk_start b) ks
      \<and> sorted_wrt (\<lambda>a b. \<not> intersects a b) ks)"

text \<open>
  The two parts of the invariant that do not speak of empty chunks: sorted ascending by
  \<open>start\<close>, and no two chunks intersect.
\<close>

definition sorted_by_start :: "chunk list \<Rightarrow> bool" where
  "sorted_by_start ks = sorted_wrt (\<lambda>a b. chunk_start a \<le> chunk_start b) ks"

definition non_overlapping :: "chunk list \<Rightarrow> bool" where
  "non_overlapping ks = sorted_wrt (\<lambda>a b. \<not> intersects a b) ks"

text \<open>\<open>before a b\<close>: the chunk \<open>a\<close> ends before the chunk \<open>b\<close> starts.\<close>

definition before :: "chunk \<Rightarrow> chunk \<Rightarrow> bool" where
  "before a b = (chunk_end a < chunk_start b)"


section \<open>The device\<close>

record disk =
  readOnly :: bool
  recordWrites :: bool
  recordReads :: bool
  discardIsZero :: bool
  knownChunks :: "chunk list"
  capacity :: "int option"

text \<open>The constructor of \<open>Disk\<close>: an empty store and no capacity known yet (\<open>null\<close>).\<close>

definition Disk :: "bool \<Rightarrow> bool \<Rightarrow> bool \<Rightarrow> bool \<Rightarrow> disk" where
  "Disk ro rw rr dz =
     \<lparr>readOnly = ro, recordWrites = rw, recordReads = rr, discardIsZero = dz,
      knownChunks = [], capacity = None\<rparr>"

text \<open>
  The error value a read hook passes to its callback, by what bluebird's
  \<open>Promise.promisify\<close> distinguishes: a primitive value (a string, a number), an
  object whose prototype is \<open>Error.prototype\<close> (as the errors of \<open>fs\<close> are), or any
  other object (an error of a subclass of \<open>Error\<close>, or an object that is no error).
\<close>

datatype 'e hook_error = Primitive 'e | PlainError 'e | OtherObject 'e

text \<open>
  What a call of the device hands to its callback as \<open>err\<close>: an exception of the
  runtime; a new \<open>OperationalError\<close> object that bluebird built from the error value of
  a hook; or the error value of a hook itself (\<open>BackendError\<close>).
\<close>

datatype 'e failure = Thrown js_error | OperationalError "'e hook_error" | BackendError 'e

text \<open>
  \<open>_readAccordingToPlan\<close> calls \<open>_read\<close> through \<open>Promise.promisify\<close> of bluebird, which
  the repository imports and does not contain. When the hook passes an error to its
  callback, the promise is rejected with \<open>wrapAsOperationalError(maybeWrapAsError(err))\<close>:
  a primitive is replaced by \<open>new Error(String(err))\<close>, and an object whose prototype
  is \<open>Error.prototype\<close> (that new error included) is replaced by a new
  \<open>OperationalError\<close> that copies its name, message, stack and own properties; any
  other object is the rejection value itself (bluebird only marks it with a
  non-enumerable property \<open>isOperational\<close>).
\<close>

fun promisify_rejection :: "'e hook_error \<Rightarrow> 'e failure" where
  "promisify_rejection (Primitive v) = OperationalError (Primitive v)"
| "promisify_rejection (PlainError e) = OperationalError (PlainError e)"
| "promisify_rejection (OtherObject e) = BackendError e"

text \<open>
  The hooks \<open>_getCapacity\<close>, \<open>_read\<close> and \<open>_write\<close> belong to the subclasses and are
  parameters here. A hook is a function of the backend's state \<open>'b\<close> and of its
  arguments; it returns what it passes to its callback (an error or a value) and the
  new backend state, and \<open>_read\<close> also returns the destination buffer as it left it.
\<close>

type_synonym ('b, 'e) capacity_hook = "'b \<Rightarrow> ('e + int) \<times> 'b"
type_synonym ('b, 'e) read_hook = "'b \<Rightarrow> buffer \<Rightarrow> int \<Rightarrow> int \<Rightarrow> int \<Rightarrow> ('e hook_error + int) \<times> buffer \<times> 'b"

subsection \<open>Read planning\<close>

text \<open>An entry of a read plan: an interval \<open>[a, z]\<close> to read from the backend, or a chunk.\<close>

datatype entry = Raw int int | Known chunk

text \<open>
  The \<open>for\<close> loop of \<open>_createReadPlan\<close> over \<open>intersections\<close>: the entries it pushes,
  from the current \<open>offset\<close>.
\<close>

fun plan_loop :: "int \<Rightarrow> chunk list \<Rightarrow> entry list" where
  "plan_loop offset [] = []"
| "plan_loop offset (chunk # rest) =
     (if offset < chunk_start chunk then [Raw offset (chunk_start chunk - 1)] else [])
     @ [Known chunk] @ plan_loop (chunk_end chunk + 1) rest"

definition intersections :: "int \<times> int \<Rightarrow> chunk list \<Rightarrow> chunk list" where
  "intersections ival chunks =
     List.map_filter
       (\<lambda>chunk. case iisect ival (interval chunk) of
                  None \<Rightarrow> None
                | Some (i0, i1) \<Rightarrow> Some (slice chunk i0 i1))
       chunks"

definition createReadPlan :: "disk \<Rightarrow> int \<Rightarrow> int \<Rightarrow> entry list" where
  "createReadPlan dsk offset len =
     (let last_pos = offset + len - 1;
          chunks = (if \<not> discardIsZero dsk
                    then filter (\<lambda>chunk. \<not> is_discard chunk) (knownChunks dsk)
                    else knownChunks dsk);
          inters = intersections (offset, last_pos) chunks
      in if inters = [] then [Raw offset last_pos]
         else plan_loop offset inters
              @ (if last_pos > chunk_end (last inters)
                 then [Raw (chunk_end (last inters) + 1) last_pos] else []))"

subsection \<open>Read execution\<close>

text \<open>
  The state of \<open>_readAccordingToPlan\<close> between two entries: the destination buffer, the
  variable \<open>offset\<close>, the device and the backend. One entry either completes
  (\<open>None\<close>) or rejects with a failure. The hook \<open>_read\<close> is called through
  \<open>Promise.promisify\<close>, so its error reaches the callback as \<open>promisify_rejection\<close>
  gives it.
\<close>

type_synonym 'b read_state = "buffer \<times> int \<times> disk \<times> 'b"

fun read_entry :: "('b, 'e) read_hook \<Rightarrow> entry \<Rightarrow> 'b read_state \<Rightarrow> 'e failure option \<times> 'b read_state" where
  "read_entry rd (Known chunk) (buffer, offset, dsk, b) =
     (case data chunk of
        Inl err \<Rightarrow> (Some (Thrown err), (buffer, offset, dsk, b))
      | Inr d \<Rightarrow>
          (let len = min (int (length d)) (int (length buffer) - offset) in
           case buffer_copy d buffer offset 0 len of
             Inl err \<Rightarrow> (Some (Thrown err), (buffer, offset, dsk, b))
           | Inr buffer' \<Rightarrow> (None, (buffer', offset + len, dsk, b))))"
| "read_entry rd (Raw a z) (buffer, offset, dsk, b) =
     (let len = z - a + 1 in
      case rd b buffer offset len a of
        (Inl err, buffer', b') \<Rightarrow> (Some (promisify_rejection err), (buffer', offset, dsk, b'))
      | (Inr bytesRead, buffer', b') \<Rightarrow>
          if recordReads dsk then
            (case insertDiskChunk
                    (BufferDiskChunk (buffer_slice buffer' offset (offset + len)) a)
                    True (knownChunks dsk) of
               Inl err \<Rightarrow> (Some (Thrown err), (buffer', offset, dsk, b'))
             | Inr ks \<Rightarrow> (None, (buffer', offset + len, dsk\<lparr>knownChunks := ks\<rparr>, b')))
          else (None, (buffer', offset + len, dsk, b')))"

text \<open>\<open>Promise.each\<close>: the entries one after the other, stopping at the first rejection.\<close>

fun read_each :: "('b, 'e) read_hook \<Rightarrow> entry list \<Rightarrow> 'b read_state \<Rightarrow> 'e failure option \<times> 'b read_state" where
  "read_each rd [] st = (None, st)"
| "read_each rd (entry # rest) st =
     (case read_entry rd entry st of
        (Some err, st') \<Rightarrow> (Some err, st')
      | (None, st') \<Rightarrow> read_each rd rest st')"

text \<open>
  \<open>_readAccordingToPlan\<close>: what the callback receives (\<open>err\<close>, or the final \<open>offset\<close>
  as the number of bytes read), with the destination buffer, the device and the
  backend as the call leaves them.
\<close>

definition readAccordingToPlan ::
    "('b, 'e) read_hook \<Rightarrow> disk \<Rightarrow> 'b \<Rightarrow> buffer \<Rightarrow> entry list \<Rightarrow> ('e failure + int) \<times> buffer \<times> disk \<times> 'b" where
  "readAccordingToPlan rd dsk b buffer plan =
     (case read_each rd plan (buffer, 0, dsk, b) of
        (Some err, (buffer', offset, dsk', b')) \<Rightarrow> (Inl err, buffer', dsk', b')
      | (None, (buffer', offset, dsk', b')) \<Rightarrow> (Inr offset, buffer', dsk', b'))"

subsection \<open>The public operations\<close>



definition discard :: "disk \<Rightarrow> int \<Rightarrow> int \<Rightarrow> (js_error + unit) \<times> disk" where
  "discard dsk offset len =
     (case insertDiskChunk (DiscardDiskChunk offset len) True (knownChunks dsk) of
        Inl err \<Rightarrow> (Inl err, dsk)
      | Inr ks \<Rightarrow> (Inr (), dsk\<lparr>knownChunks := ks\<rparr>))"

text \<open>A sequence of calls \<open>discard(offset, length)\<close>, one after the other.\<close>

fun discard_calls :: "disk \<Rightarrow> (int \<times> int) list \<Rightarrow> disk" where
  "discard_calls dsk [] = dsk"
| "discard_calls dsk ((offset, len) # calls) = discard_calls (snd (discard dsk offset len)) calls"

definition getDiscardedChunks :: "disk \<Rightarrow> chunk list" where
  "getDiscardedChunks dsk = filter is_discard (knownChunks dsk)"

definition getCapacity :: "('b, 'e) capacity_hook \<Rightarrow> disk \<Rightarrow> 'b \<Rightarrow> ('e + int) \<times> disk \<times> 'b" where
  "getCapacity gc dsk b =
     (case capacity dsk of
        Some c \<Rightarrow> (Inr c, dsk, b)
      | None \<Rightarrow>
          (case gc b of
             (Inl err, b') \<Rightarrow> (Inl err, dsk, b')
           | (Inr c, b') \<Rightarrow> (Inr c, dsk\<lparr>capacity := Some c\<rparr>, b')))"

text \<open>
  Counting the invocations of a hook: the backend state is paired with a counter that
  every invocation increments.
\<close>

definition counting :: "('b \<Rightarrow> 'r \<times> 'b) \<Rightarrow> 'b \<times> nat \<Rightarrow> 'r \<times> ('b \<times> nat)" where
  "counting hook bn = (case hook (fst bn) of (r, b') \<Rightarrow> (r, (b', snd bn + 1)))"

text \<open>\<open>k\<close> calls of \<open>getCapacity\<close> one after the other, with the list of their results.\<close>

fun getCapacity_calls :: "('b, 'e) capacity_hook \<Rightarrow> nat \<Rightarrow> disk \<Rightarrow> 'b \<Rightarrow> ('e + int) list \<times> disk \<times> 'b" where
  "getCapacity_calls gc 0 dsk b = ([], dsk, b)"
| "getCapacity_calls gc (Suc k) dsk b =
     (case getCapacity gc dsk b of
        (r, dsk', b') \<Rightarrow>
          (case getCapacity_calls gc k dsk' b' of (rs, dsk'', b'') \<Rightarrow> (r # rs, dsk'', b'')))"

text \<open>Vocabulary for stating properties of read plans.\<close>

fun entry_start :: "entry \<Rightarrow> int" where
  "entry_start (Raw a z) = a"
| "entry_start (Known c) = chunk_start c"

fun entry_end :: "entry \<Rightarrow> int" where
  "entry_end (Raw a z) = z"
| "entry_end (Known c) = chunk_end c"

definition entry_length :: "entry \<Rightarrow> int" where
  "entry_length e = entry_end e - entry_start e + 1"

text \<open>
  \<open>tiles a plan z\<close>: the entries of \<open>plan\<close> are non-empty intervals, the first starts
  at \<open>a\<close>, each next one starts right after the end of the one before, and the last
  ends at \<open>z\<close>.
\<close>

fun tiles :: "int \<Rightarrow> entry list \<Rightarrow> int \<Rightarrow> bool" where
  "tiles a [] z = (a = z + 1)"
| "tiles a (e # es) z = (entry_start e = a \<and> entry_start e \<le> entry_end e \<and> tiles (entry_end e + 1) es z)"


section \<open>Properties of chunks\<close>

lemma intersects_iff:
  "intersects a b \<longleftrightarrow> max (chunk_start a) (chunk_start b) \<le> min (chunk_end a) (chunk_end b)"
  by (simp add: intersects_def intersection_def iisect_def interval_def Let_def)

lemma intersects_sym: "intersects a b = intersects b a"
  by (auto simp: intersects_iff)

lemma intersection_Some:
  "intersects a b \<Longrightarrow>
     intersection a b = Some (max (chunk_start a) (chunk_start b), min (chunk_end a) (chunk_end b))"
  by (simp add: intersects_iff intersection_def iisect_def interval_def Let_def)

lemma buffer_slice_inside:
  "0 \<le> s \<Longrightarrow> s \<le> e \<Longrightarrow> e \<le> int (length buf) \<Longrightarrow>
     buffer_slice buf s e = take (nat (e - s)) (drop (nat s) buf)"
  by (auto simp: buffer_slice_def clamp_index_def Let_def)

lemma slice_start [simp]: "chunk_start (slice c s e) = s"
  by (cases c) (simp_all add: BufferDiskChunk_def DiscardDiskChunk_def Let_def)

lemma slice_end:
  "chunk_start c \<le> s \<Longrightarrow> s \<le> e + 1 \<Longrightarrow> e \<le> chunk_end c \<Longrightarrow> chunk_end (slice c s e) = e"
  by (cases c)
     (auto simp: BufferDiskChunk_def DiscardDiskChunk_def Let_def buffer_slice_inside)

lemma slice_is_discard [simp]: "is_discard (slice c s e) = is_discard c"
  by (cases c) (simp_all add: BufferDiskChunk_def DiscardDiskChunk_def Let_def)

lemma slice_Data_inside:
  assumes "offset \<le> s" "s \<le> e + 1" "e \<le> offset + int (length buf) - 1"
  shows "slice (Data offset buf) s e = Data s (take (nat (e - s + 1)) (drop (nat (s - offset)) buf))"
proof -
  have "buffer_slice buf (s - offset) (s - offset + e - s + 1)
      = take (nat ((s - offset + e - s + 1) - (s - offset))) (drop (nat (s - offset)) buf)"
    using assms by (intro buffer_slice_inside) auto
  moreover have "(s - offset + e - s + 1) - (s - offset) = e - s + 1" by simp
  ultimately show ?thesis
    by (simp only: slice.simps Let_def BufferDiskChunk_def)
qed

lemma slice_byte_at:
  assumes "chunk_start c \<le> s" "e \<le> chunk_end c" "s \<le> p" "p \<le> e"
  shows "byte_at (slice c s e) p = byte_at c p"
proof (cases c)
  case (Data offset buf)
  have sl: "slice c s e = Data s (take (nat (e - s + 1)) (drop (nat (s - offset)) buf))"
    using assms Data by (simp only: Data) (rule slice_Data_inside, auto)
  have idx: "nat (s - offset) + nat (p - s) = nat (p - offset)"
    using assms Data by simp
  have "byte_at (slice c s e) p = drop (nat (s - offset)) buf ! nat (p - s)"
    using assms by (simp add: sl)
  also have "\<dots> = buf ! nat (p - offset)"
    using assms Data idx by (subst nth_drop) auto
  finally show ?thesis by (simp add: Data)
next
  case (Discard s0 e0)
  then show ?thesis by (simp add: DiscardDiskChunk_def)
qed


section \<open>Cutting a chunk\<close>

text \<open>
  Claim C6. For two chunks \<open>a\<close> and \<open>b\<close> whose closed intervals intersect, \<open>a.cut(b)\<close>
  returns a list of at most two chunks; a device offset lies in one of them exactly
  when it lies in \<open>a\<close> and not in \<open>b\<close>; the list is empty when \<open>b\<close> contains \<open>a\<close>;
  every part is of the variant of \<open>a\<close> and holds the bytes of \<open>a\<close>; and the length of
  \<open>a\<close> is the sum of the lengths of the parts plus the length of the intersection.
\<close>

theorem cut_parts_outside:
  assumes "intersects a b"
  shows "\<exists>parts. cut a b = Inr parts \<and> length parts \<le> 2
     \<and> (\<forall>p. (\<exists>c\<in>set parts. covers c p) = (covers a p \<and> \<not> covers b p))
     \<and> (includedIn a b \<longrightarrow> parts = [])
     \<and> (\<forall>c\<in>set parts. is_discard c = is_discard a \<and> (\<forall>p. covers c p \<longrightarrow> byte_at c p = byte_at a p))
     \<and> chunk_length a = sum_list (map chunk_length parts) + intersection_length a b"
proof -
  define lo where "lo = max (chunk_start a) (chunk_start b)"
  define hi where "hi = min (chunk_end a) (chunk_end b)"
  have lohi: "lo \<le> hi" using assms by (simp add: intersects_iff lo_def hi_def)
  have lo: "chunk_start a \<le> lo" "chunk_start b \<le> lo" "lo = chunk_start a \<or> lo = chunk_start b"
    by (auto simp: lo_def)
  have hi: "hi \<le> chunk_end a" "hi \<le> chunk_end b" "hi = chunk_end a \<or> hi = chunk_end b"
    by (auto simp: hi_def)
  have inter: "intersection a b = Some (lo, hi)"
    using assms by (simp add: intersection_Some lo_def hi_def)
  define L where "L = slice a (chunk_start a) (lo - 1)"
  define R where "R = slice a (hi + 1) (chunk_end a)"
  define parts where "parts = (if lo > chunk_start a then [L] else []) @ (if chunk_end a > hi then [R] else [])"
  have c: "cut a b = Inr parts" by (simp add: cut_def inter parts_def L_def R_def)
  have Ls: "chunk_start L = chunk_start a" and Rs: "chunk_start R = hi + 1"
    by (simp_all add: L_def R_def)
  have Le: "chunk_end L = lo - 1" unfolding L_def using lohi lo hi by (intro slice_end) auto
  have Re: "chunk_end R = chunk_end a" unfolding R_def using lohi lo hi by (intro slice_end) auto
  have Lb: "covers L p \<longrightarrow> byte_at L p = byte_at a p" for p
    unfolding L_def covers_def using lohi lo hi Le[unfolded L_def] by (auto intro!: slice_byte_at)
  have Rb: "covers R p \<longrightarrow> byte_at R p = byte_at a p" for p
    unfolding R_def covers_def using lohi lo hi Re[unfolded R_def] by (auto intro!: slice_byte_at)
  have 1: "length parts \<le> 2" by (simp add: parts_def)
  have 2: "(\<exists>c\<in>set parts. covers c p) = (covers a p \<and> \<not> covers b p)" for p
    using lohi lo hi by (auto simp: parts_def covers_def Le Re Ls Rs)
  have 3: "includedIn a b \<longrightarrow> parts = []"
    using lohi lo hi by (auto simp: includedIn_def parts_def)
  have 4: "\<forall>c\<in>set parts. is_discard c = is_discard a \<and> (\<forall>p. covers c p \<longrightarrow> byte_at c p = byte_at a p)"
    using Lb Rb by (auto simp: parts_def L_def R_def)
  have 5: "chunk_length a = sum_list (map chunk_length parts) + intersection_length a b"
    using lohi lo hi by (auto simp: chunk_length_def intersection_length_def inter Le Re Ls Rs parts_def)
  show ?thesis using c 1 2 3 4 5 by blast
qed

theorem cut_parts_outside_witness:
  "intersects (Data 5 [1, 2, 3, 4, 5, 6, 7, 8, 9, 10]) (Discard 6 7)
   \<and> cut (Data 5 [1, 2, 3, 4, 5, 6, 7, 8, 9, 10]) (Discard 6 7)
       = Inr [Data 5 [1], Data 8 [4, 5, 6, 7, 8, 9, 10]]
   \<and> chunk_length (Data 5 [1, 2, 3, 4, 5, 6, 7, 8, 9, 10])
       = sum_list (map chunk_length [Data 5 [1], Data 8 [4, 5, 6, 7, 8, 9, 10]])
         + intersection_length (Data 5 [1, 2, 3, 4, 5, 6, 7, 8, 9, 10]) (Discard 6 7)"
proof -
  have i: "intersects (Data 5 [1, 2, 3, 4, 5, 6, 7, 8, 9, 10]) (Discard 6 7)"
    by (simp add: intersects_iff)
  have c: "cut (Data 5 [1, 2, 3, 4, 5, 6, 7, 8, 9, 10]) (Discard 6 7)
       = Inr [Data 5 [1], Data 8 [4, 5, 6, 7, 8, 9, 10]]"
    by code_simp
  from cut_parts_outside [OF i] c i show ?thesis by auto
qed


section \<open>The capacity cache\<close>

lemma getCapacity_cached:
  "capacity d = Some v \<Longrightarrow> getCapacity_calls gc k d bn = (replicate k (Inr v), d, bn)"
  by (induction k) (simp_all add: getCapacity_def)

text \<open>
  Claim C8. \<open>getCapacity\<close> caches the value of the first successful query of the
  backend. With the invocations of the hook counted: once a value is cached, any
  number \<open>k\<close> of calls return it and leave the backend and the counter as they were;
  on an empty cache a successful query is cached, so that \<open>k + 1\<close> calls invoke the
  hook exactly once; a failed query leaves the device as it was, the cache empty.
\<close>

theorem getCapacity_memoized:
  "(capacity d = Some v \<longrightarrow>
      getCapacity_calls (counting gc) k d (b, n) = (replicate k (Inr v), d, (b, n)))
   \<and> (capacity d = None \<and> gc b = (Inr v, b') \<longrightarrow>
      getCapacity (counting gc) d (b, n) = (Inr v, d\<lparr>capacity := Some v\<rparr>, (b', n + 1))
      \<and> getCapacity_calls (counting gc) (Suc k) d (b, n)
          = (replicate (Suc k) (Inr v), d\<lparr>capacity := Some v\<rparr>, (b', n + 1)))
   \<and> (capacity d = None \<and> gc b = (Inl e, b') \<longrightarrow>
      getCapacity (counting gc) d (b, n) = (Inl e, d, (b', n + 1)))"
proof (intro conjI impI)
  assume "capacity d = Some v"
  then show "getCapacity_calls (counting gc) k d (b, n) = (replicate k (Inr v), d, (b, n))"
    by (rule getCapacity_cached)
next
  assume a: "capacity d = None \<and> gc b = (Inr v, b')"
  then show first: "getCapacity (counting gc) d (b, n) = (Inr v, d\<lparr>capacity := Some v\<rparr>, (b', n + 1))"
    by (simp add: getCapacity_def counting_def)
  have "capacity (d\<lparr>capacity := Some v\<rparr>) = Some v" by simp
  then have "getCapacity_calls (counting gc) k (d\<lparr>capacity := Some v\<rparr>) (b', n + 1)
      = (replicate k (Inr v), d\<lparr>capacity := Some v\<rparr>, (b', n + 1))"
    by (rule getCapacity_cached)
  with first show "getCapacity_calls (counting gc) (Suc k) d (b, n)
          = (replicate (Suc k) (Inr v), d\<lparr>capacity := Some v\<rparr>, (b', n + 1))"
    by simp
next
  assume "capacity d = None \<and> gc b = (Inl e, b')"
  then show "getCapacity (counting gc) d (b, n) = (Inl e, d, (b', n + 1))"
    by (simp add: getCapacity_def counting_def)
qed

theorem getCapacity_memoized_witness:
  "capacity (Disk True True False True) = None
   \<and> getCapacity_calls (counting (\<lambda>b::unit. (Inr 1024 :: unit + int, b))) 3
        (Disk True True False True) ((), 0)
      = ([Inr 1024, Inr 1024, Inr 1024], (Disk True True False True)\<lparr>capacity := Some 1024\<rparr>, ((), 1))
   \<and> getCapacity (counting (\<lambda>b::unit. (Inl ''EIO'' :: string + int, b)))
        (Disk True True False True) ((), 0)
      = (Inl ''EIO'', Disk True True False True, ((), 1))"
proof -
  let ?d = "Disk True True False True"
  have c: "capacity ?d = None" by (simp add: Disk_def)
  have 1: "getCapacity_calls (counting (\<lambda>b::unit. (Inr 1024 :: unit + int, b))) (Suc 2) ?d ((), 0)
      = (replicate (Suc 2) (Inr 1024), ?d\<lparr>capacity := Some 1024\<rparr>, ((), 0 + 1))"
    using getCapacity_memoized [where d = ?d and gc = "\<lambda>b::unit. (Inr 1024 :: unit + int, b)"
        and b = "()" and n = 0 and b' = "()" and v = 1024 and k = 2] c by simp
  have 2: "getCapacity (counting (\<lambda>b::unit. (Inl ''EIO'' :: string + int, b))) ?d ((), 0)
      = (Inl ''EIO'', ?d, ((), 0 + 1))"
    using getCapacity_memoized [where d = ?d and gc = "\<lambda>b::unit. (Inl ''EIO'' :: string + int, b)"
        and b = "()" and n = 0 and b' = "()" and e = "''EIO''"] c by simp
  have 3: "replicate (Suc 2) x = [x, x, x]" for x :: "unit + int"
    by (simp add: numeral_2_eq_2)
  have 4: "Suc 2 = 3" by simp
  from 1 have 5: "getCapacity_calls (counting (\<lambda>b::unit. (Inr 1024 :: unit + int, b))) 3 ?d ((), 0)
      = ([Inr 1024, Inr 1024, Inr 1024], ?d\<lparr>capacity := Some 1024\<rparr>, ((), 0 + 1))"
    unfolding 3 unfolding 4 .
  show ?thesis using c 5 2 by simp
qed


section \<open>Executing a read plan\<close>

lemma buffer_copy_length: "buffer_copy src tgt ts ss se = Inr tgt' \<Longrightarrow> length tgt' = length tgt"
  by (auto simp: buffer_copy_def Let_def split: if_splits)

lemma buffer_copy_inside:
  assumes "0 \<le> ts" "ts < int (length tgt)" "0 < len" "len \<le> int (length src)"
    "len \<le> int (length tgt) - ts"
  shows "buffer_copy src tgt ts 0 len
      = Inr (take (nat ts) tgt @ take (nat len) src @ drop (nat ts + nat len) tgt)"
proof -
  have m: "min (nat (int (length tgt) - ts)) (nat len) = nat len" using assms by simp
  have bytes: "take (nat (int (length tgt) - ts)) (take (nat (len - 0)) (drop (nat 0) src))
      = take (nat len) src"
    using m by simp
  have l: "length (take (nat len) src) = nat len" using assms by simp
  have "buffer_copy src tgt ts 0 len
      = Inr (let bytes = take (nat (int (length tgt) - ts)) (take (nat (len - 0)) (drop (nat 0) src))
             in take (nat ts) tgt @ bytes @ drop (nat ts + length bytes) tgt)"
    unfolding buffer_copy_def Let_def using assms by simp
  then show ?thesis unfolding bytes Let_def l .
qed

lemma buffer_copy_nth:
  assumes "buffer_copy src tgt ts 0 len = Inr tgt'" "len \<le> int (length src)" "len \<le> int (length tgt) - ts"
    "i < length tgt"
  shows "tgt' ! i = (if ts \<le> int i \<and> int i < ts + len then src ! nat (int i - ts) else tgt ! i)"
proof (cases "ts \<ge> int (length tgt) \<or> 0 \<ge> len")
  case True
  then show ?thesis using assms by (auto simp: buffer_copy_def split: if_splits)
next
  case False
  with assms have nn: "0 \<le> ts" "0 < len" by (auto simp: buffer_copy_def split: if_splits)
  have t: "tgt' = take (nat ts) tgt @ take (nat len) src @ drop (nat ts + nat len) tgt"
    using buffer_copy_inside [of ts tgt len src] assms False nn by simp
  have l1: "length (take (nat ts) tgt) = nat ts" using False nn by simp
  have l2: "length (take (nat len) src) = nat len" using assms nn by simp
  show ?thesis
  proof (cases "int i < ts")
    case True
    then show ?thesis unfolding t using nn l1 by (simp add: nth_append)
  next
    case ge: False
    show ?thesis
    proof (cases "int i < ts + len")
      case True
      have "i - nat ts < nat len" using True ge nn by linarith
      moreover have "i - nat ts = nat (int i - ts)" using ge nn by linarith
      moreover have "\<not> i < nat ts" using ge nn by linarith
      ultimately show ?thesis unfolding t using nn ge True l1 l2
        by (simp add: nth_append)
    next
      case False
      have a: "\<not> i < nat ts" using ge nn by linarith
      have b: "\<not> i - nat ts < nat len" using False ge nn by linarith
      have c: "nat ts + nat len + (i - nat ts - nat len) = i" using a b by linarith
      have le: "nat ts + nat len \<le> length tgt" using assms nn by linarith
      have "tgt' ! i = (take (nat len) src @ drop (nat ts + nat len) tgt) ! (i - nat ts)"
        unfolding t using a by (simp only: nth_append l1 if_False)
      also have "\<dots> = drop (nat ts + nat len) tgt ! (i - nat ts - nat len)"
        using b by (simp only: nth_append l2 if_False)
      also have "\<dots> = tgt ! (nat ts + nat len + (i - nat ts - nat len))"
        using le by (simp only: nth_drop)
      also have "\<dots> = tgt ! i" by (simp only: c)
      finally show ?thesis using False by simp
    qed
  qed
qed

text \<open>
  Claim C10. Whatever the state of the executor when it reaches a chunk entry, the
  destination buffer keeps its length; and when the entry completes, \<open>offset\<close> has
  advanced by \<open>min(data.length, buffer.length - offset)\<close>, it stays within the
  buffer, exactly the bytes of the buffer from the old to the new \<open>offset\<close> hold the
  first bytes of the chunk, and every other byte is unchanged.
\<close>

theorem chunk_copy_clamped:
  assumes "read_entry rd (Known c) (buffer, offset, dsk, b) = (r, (buffer', offset', dsk', b'))"
  shows "length buffer' = length buffer
    \<and> (r = None \<longrightarrow>
         (\<exists>d. data c = Inr d
            \<and> offset' - offset = min (int (length d)) (int (length buffer) - offset)
            \<and> 0 \<le> offset \<and> offset \<le> offset' \<and> offset' \<le> int (length buffer)
            \<and> (\<forall>i < length buffer.
                  buffer' ! i = (if offset \<le> int i \<and> int i < offset' then d ! nat (int i - offset)
                                 else buffer ! i))))"
proof (cases "data c")
  case (Inl err)
  with assms show ?thesis by auto
next
  case (Inr d)
  define len where "len = min (int (length d)) (int (length buffer) - offset)"
  show ?thesis
  proof (cases "buffer_copy d buffer offset 0 len")
    case (Inl err)
    with assms Inr show ?thesis by (auto simp: len_def Let_def)
  next
    case cp: (Inr buf2)
    with assms Inr have eqs: "r = None" "buffer' = buf2" "offset' = offset + len"
      by (simp_all add: len_def Let_def)
    have nn: "0 \<le> offset" "0 \<le> len" using cp by (auto simp: buffer_copy_def split: if_splits)
    have le: "len \<le> int (length d)" "len \<le> int (length buffer) - offset" by (simp_all add: len_def)
    have "\<forall>i < length buffer. buf2 ! i = (if offset \<le> int i \<and> int i < offset + len then d ! nat (int i - offset) else buffer ! i)"
      using buffer_copy_nth [OF cp le] by simp
    then show ?thesis using eqs nn le Inr buffer_copy_length [OF cp] len_def by auto
  qed
qed

theorem chunk_copy_clamped_witness:
  "read_entry (\<lambda>b buf bo l fo. (Inr l :: unit hook_error + int, buf, b)) (Known (Data 0 [1, 2, 3, 4, 5]))
      ([9, 9, 9], 1, Disk True True False True, ())
     = (None, ([9, 1, 2], 3, Disk True True False True, ()))
   \<and> length [9, 1, 2 :: byte] = length [9, 9, 9 :: byte]
   \<and> (3 :: int) \<le> int (length [9, 9, 9 :: byte])"
proof -
  have e: "read_entry (\<lambda>b buf bo l fo. (Inr l :: unit hook_error + int, buf, b)) (Known (Data 0 [1, 2, 3, 4, 5]))
      ([9, 9, 9], 1, Disk True True False True, ())
     = (None, ([9, 1, 2], 3, Disk True True False True, ()))"
    by (simp add: buffer_copy_def Let_def)
  from chunk_copy_clamped [OF e] e show ?thesis by simp
qed

lemma read_each_append:
  "read_each rd (xs @ ys) st =
     (case read_each rd xs st of (Some err, st') \<Rightarrow> (Some err, st') | (None, st') \<Rightarrow> read_each rd ys st')"
  by (induction xs arbitrary: st) (auto split: prod.splits option.splits)

text \<open>
  Claim C7 as it is stated says that the caller receives the backend's error value
  unmodified. It does not when the hook fails with a plain \<open>Error\<close> object, as \<open>fs.read\<close>
  does: the callback receives the new \<open>OperationalError\<close> that \<open>Promise.promisify\<close>
  builds from it, not the hook's error.
\<close>

theorem backend_error_as_is_counterexample:
  "readAccordingToPlan (\<lambda>b buf bo l fo. (Inl (PlainError ''EIO''), buf, Suc b))
      (Disk True True False True) (0 :: nat) [0, 0, 0, 0] [Raw 0 3]
     = (Inl (OperationalError (PlainError ''EIO'')), [0, 0, 0, 0], Disk True True False True, Suc 0)
   \<and> OperationalError (PlainError ''EIO'') \<noteq> BackendError ''EIO''"
  by (simp add: readAccordingToPlan_def)

text \<open>
  Claim C7, amended. When the entries before a backend-read entry have completed and
  the backend's read hook fails on that entry with the error \<open>e\<close>, the read hands no
  success result to the callback but the rejection value of \<open>Promise.promisify\<close>: the
  error \<open>e\<close> itself when it is an object that is not a plain \<open>Error\<close>, and a new
  \<open>OperationalError\<close> built from \<open>e\<close> when \<open>e\<close> is a primitive or a plain \<open>Error\<close>. This
  holds whatever entries follow in the plan: the device is as the earlier entries left
  it and the backend is as the failed call left it, so no later entry has run.
\<close>

theorem backend_error_aborts:
  assumes "read_each rd pre (buffer, 0, d, b) = (None, (buf1, off1, d1, b1))"
      and "rd b1 buf1 off1 (z - a + 1) a = (Inl e, buf2, b2)"
  shows "readAccordingToPlan rd d b buffer (pre @ Raw a z # post)
      = (Inl (case e of
                Primitive v \<Rightarrow> OperationalError (Primitive v)
              | PlainError x \<Rightarrow> OperationalError (PlainError x)
              | OtherObject x \<Rightarrow> BackendError x),
         buf2, d1, b2)"
  using assms by (cases e) (simp_all add: readAccordingToPlan_def read_each_append Let_def)

theorem backend_error_aborts_witness:
  "readAccordingToPlan (\<lambda>b buf bo l fo. (Inl (OtherObject ''ECONNRESET''), buf, Suc b))
      (Disk True True False True) (0 :: nat) [0, 0, 0, 0, 0, 0, 0]
      ([Known (Data 0 [1, 2])] @ Raw 2 5 # [Known (Data 6 [7])])
     = (Inl (BackendError ''ECONNRESET''), [1, 2, 0, 0, 0, 0, 0], Disk True True False True, Suc 0)
   \<and> readAccordingToPlan (\<lambda>b buf bo l fo. (Inl (PlainError ''EIO''), buf, Suc b))
      (Disk True True False True) (0 :: nat) [0, 0, 0, 0, 0, 0, 0]
      ([Known (Data 0 [1, 2])] @ Raw 2 5 # [Known (Data 6 [7])])
     = (Inl (OperationalError (PlainError ''EIO'')), [1, 2, 0, 0, 0, 0, 0],
        Disk True True False True, Suc 0)"
proof -
  let ?rd = "\<lambda>e (b :: nat) (buf :: buffer) (bo :: int) (l :: int) (fo :: int).
               (Inl e :: string hook_error + int, buf, Suc b)"
  have pre: "read_each (?rd e) [Known (Data 0 [1, 2])]
        ([0, 0, 0, 0, 0, 0, 0], 0, Disk True True False True, 0)
      = (None, ([1, 2, 0, 0, 0, 0, 0], 2, Disk True True False True, 0))" for e
    by (simp add: buffer_copy_def Let_def)
  have fail: "?rd e 0 [1, 2, 0, 0, 0, 0, 0] 2 (5 - 2 + 1) 2 = (Inl e, [1, 2, 0, 0, 0, 0, 0], Suc 0)" for e
    by simp
  from backend_error_aborts [OF pre [of "OtherObject ''ECONNRESET''"]
         fail [of "OtherObject ''ECONNRESET''"], where post = "[Known (Data 6 [7])]"]
       backend_error_aborts [OF pre [of "PlainError ''EIO''"]
         fail [of "PlainError ''EIO''"], where post = "[Known (Data 6 [7])]"]
  show ?thesis by simp
qed


section \<open>Inserting into the chunk store\<close>

text \<open>
  Under \<open>nonempty\<close>, sorted by \<open>start\<close> and pairwise not intersecting is the same as
  each chunk ending before the next one starts.
\<close>

lemma store_inv_parts:
  "store_inv ks = (list_all nonempty ks \<and> sorted_by_start ks \<and> non_overlapping ks)"
  by (simp add: store_inv_def sorted_by_start_def non_overlapping_def)

lemma before_iff:
  "nonempty a \<Longrightarrow> nonempty b \<Longrightarrow> (chunk_start a \<le> chunk_start b \<and> \<not> intersects a b) = before a b"
  by (auto simp: nonempty_def before_def intersects_iff)

lemma store_inv_chain: "store_inv ks \<longleftrightarrow> list_all nonempty ks \<and> sorted_wrt before ks"
proof (induction ks)
  case Nil
  show ?case by (simp add: store_inv_def)
next
  case (Cons a ks)
  have "nonempty a \<Longrightarrow> list_all nonempty ks \<Longrightarrow>
      ((\<forall>y\<in>set ks. chunk_start a \<le> chunk_start y) \<and> (\<forall>y\<in>set ks. \<not> intersects a y))
        = (\<forall>y\<in>set ks. before a y)"
    using before_iff [of a] by (auto simp: list_all_iff)
  with Cons show ?case by (auto simp: store_inv_def)
qed

lemma insert_loop_end: "insert_loop c (length pre) ia pre = Inr (ia, pre)"
  by (subst insert_loop.simps) simp

lemma insert_loop_break:
  "chunk_start other > chunk_end c \<Longrightarrow>
     insert_loop c (length pre) ia (pre @ other # rest) = Inr (ia, pre @ other # rest)"
  by (subst insert_loop.simps) (simp add: Let_def)

lemma insert_loop_skip:
  "\<not> chunk_start other > chunk_end c \<Longrightarrow> \<not> intersects c other \<Longrightarrow>
     insert_loop c (length pre) ia (pre @ other # rest)
       = insert_loop c (length (pre @ [other]))
           (if chunk_start other < chunk_start c then length pre + 1 else length pre)
           ((pre @ [other]) @ rest)"
  by (subst insert_loop.simps) (simp add: Let_def)

lemma insert_loop_delete:
  "\<not> chunk_start other > chunk_end c \<Longrightarrow> intersects c other \<Longrightarrow> includedIn other c \<Longrightarrow>
     insert_loop c (length pre) ia (pre @ other # rest)
       = insert_loop c (length pre)
           (if chunk_start other < chunk_start c then length pre + 1 else length pre)
           (pre @ rest)"
  by (subst insert_loop.simps) (simp add: Let_def splice_def)

lemma insert_loop_cut:
  "\<not> chunk_start other > chunk_end c \<Longrightarrow> intersects c other \<Longrightarrow> \<not> includedIn other c \<Longrightarrow>
   cut other c = Inr newChunks \<Longrightarrow>
     insert_loop c (length pre) ia (pre @ other # rest)
       = insert_loop c (length (pre @ newChunks))
           (if chunk_start other < chunk_start c then length pre + 1 else length pre)
           ((pre @ newChunks) @ rest)"
  by (subst insert_loop.simps) (simp add: Let_def splice_def)

lemma cut_shape:
  assumes "intersects other c"
  shows "\<exists>ls rs. cut other c = Inr (ls @ rs)
     \<and> (if chunk_start other < chunk_start c
         then \<exists>l. ls = [l] \<and> chunk_start l = chunk_start other \<and> chunk_end l = chunk_start c - 1
         else ls = [])
     \<and> (if chunk_end c < chunk_end other
         then \<exists>r. rs = [r] \<and> chunk_start r = chunk_end c + 1 \<and> chunk_end r = chunk_end other
         else rs = [])"
proof -
  define lo where "lo = max (chunk_start other) (chunk_start c)"
  define hi where "hi = min (chunk_end other) (chunk_end c)"
  have lohi: "lo \<le> hi" using assms by (simp add: intersects_iff lo_def hi_def)
  have inter: "intersection other c = Some (lo, hi)"
    using assms by (simp add: intersection_Some lo_def hi_def)
  define ls where "ls = (if lo > chunk_start other then [slice other (chunk_start other) (lo - 1)] else [])"
  define rs where "rs = (if chunk_end other > hi then [slice other (hi + 1) (chunk_end other)] else [])"
  have c: "cut other c = Inr (ls @ rs)" by (simp add: cut_def inter ls_def rs_def)
  have l: "if chunk_start other < chunk_start c
         then \<exists>l. ls = [l] \<and> chunk_start l = chunk_start other \<and> chunk_end l = chunk_start c - 1
         else ls = []"
  proof (cases "chunk_start other < chunk_start c")
    case True
    then have lo': "lo = chunk_start c" by (simp add: lo_def)
    have "chunk_end (slice other (chunk_start other) (lo - 1)) = lo - 1"
      using lohi True lo' by (intro slice_end) (auto simp: hi_def)
    then show ?thesis using True lo' by (simp add: ls_def)
  next
    case False
    then show ?thesis by (simp add: ls_def lo_def)
  qed
  have r: "if chunk_end c < chunk_end other
         then \<exists>r. rs = [r] \<and> chunk_start r = chunk_end c + 1 \<and> chunk_end r = chunk_end other
         else rs = []"
  proof (cases "chunk_end c < chunk_end other")
    case True
    then have hi': "hi = chunk_end c" by (simp add: hi_def)
    have "chunk_end (slice other (hi + 1) (chunk_end other)) = chunk_end other"
      using lohi True hi' by (intro slice_end) (auto simp: lo_def)
    then show ?thesis using True hi' by (simp add: rs_def)
  next
    case False
    then show ?thesis by (simp add: rs_def hi_def)
  qed
  show ?thesis using c l r by blast
qed


lemma insert_loop_shape:
  assumes c: "nonempty c"
  shows "list_all nonempty (A @ B @ post) \<Longrightarrow> sorted_wrt before (A @ B @ post) \<Longrightarrow>
     \<forall>x\<in>set A. chunk_end x < chunk_start c \<Longrightarrow> \<forall>x\<in>set B. chunk_end c < chunk_start x \<Longrightarrow>
     \<exists>A' B'. insert_loop c (length (A @ B)) (length A) (A @ B @ post) = Inr (length A', A' @ B')
        \<and> list_all nonempty (A' @ B') \<and> sorted_wrt before (A' @ B')
        \<and> (\<forall>x\<in>set A'. chunk_end x < chunk_start c) \<and> (\<forall>x\<in>set B'. chunk_end c < chunk_start x)"
proof (induction post arbitrary: A B)
  case Nil
  have "insert_loop c (length (A @ B)) (length A) (A @ B) = Inr (length A, A @ B)"
    by (rule insert_loop_end)
  with Nil show ?case by auto
next
  case (Cons other rest)
  note ne = Cons.prems(1) and ch = Cons.prems(2) and bA = Cons.prems(3) and bB = Cons.prems(4)
  have ne_o: "chunk_start other \<le> chunk_end other"
    using ne by (simp add: nonempty_def)
  have ne_c: "chunk_start c \<le> chunk_end c"
    using c by (simp add: nonempty_def)
  have o_rest: "\<forall>y\<in>set rest. chunk_end other < chunk_start y"
    using ch by (auto simp: sorted_wrt_append before_def)
  have pre_o: "\<forall>x\<in>set (A @ B). chunk_end x < chunk_start other"
    using ch by (auto simp: sorted_wrt_append before_def)
  show ?case
  proof (cases "chunk_start other > chunk_end c")
    case True
    have eq: "insert_loop c (length (A @ B)) (length A) ((A @ B) @ other # rest)
        = Inr (length A, (A @ B) @ other # rest)"
      using True by (rule insert_loop_break)
    have "\<forall>x\<in>set (B @ other # rest). chunk_end c < chunk_start x"
      using bB True o_rest ne_o by auto
    then show ?thesis
      using eq ne ch bA by (intro exI [of _ A] exI [of _ "B @ other # rest"]) simp
  next
    case nb: False
    have B_empty: "B = []"
    proof (cases B)
      case Nil
      then show ?thesis .
    next
      case (Cons x xs)
      then have "x \<in> set B" by simp
      then have "chunk_end c < chunk_start x" "chunk_end x < chunk_start other" "nonempty x"
        using bB pre_o ne by (auto simp: list_all_iff)
      then show ?thesis using nb by (simp add: nonempty_def)
    qed
    have neA: "list_all nonempty A" and ne_rest: "list_all nonempty rest"
      using ne by simp_all
    have chA: "sorted_wrt before A" and ch_rest: "sorted_wrt before rest"
      and A_rest: "\<forall>x\<in>set A. \<forall>y\<in>set rest. before x y"
      using ch by (auto simp: sorted_wrt_append)
    have A_o: "\<forall>x\<in>set A. chunk_end x < chunk_start other"
      using pre_o by simp
    show ?thesis
    proof (cases "intersects c other")
      case False
      then have o_before: "chunk_end other < chunk_start c"
        using nb ne_o ne_c by (auto simp: intersects_iff)
      then have lt: "chunk_start other < chunk_start c" using ne_o by simp
      have eq: "insert_loop c (length (A @ B)) (length A) ((A @ B) @ other # rest)
          = insert_loop c (length ((A @ [other]) @ [])) (length (A @ [other])) ((A @ [other]) @ [] @ rest)"
        using insert_loop_skip [OF nb False, of "A @ B" "length A" rest] lt B_empty by simp
      have "\<exists>A' B'. insert_loop c (length ((A @ [other]) @ [])) (length (A @ [other])) ((A @ [other]) @ [] @ rest)
            = Inr (length A', A' @ B')
          \<and> list_all nonempty (A' @ B') \<and> sorted_wrt before (A' @ B')
          \<and> (\<forall>x\<in>set A'. chunk_end x < chunk_start c) \<and> (\<forall>x\<in>set B'. chunk_end c < chunk_start x)"
        using ne ch bA o_before B_empty by (intro Cons.IH) auto
      then show ?thesis using eq by simp
    next
      case True
      then have oc: "intersects other c" by (simp add: intersects_sym)
      show ?thesis
      proof (cases "includedIn other c")
        case inc: True
        then have ge: "\<not> chunk_start other < chunk_start c" by (simp add: includedIn_def)
        have eq: "insert_loop c (length (A @ B)) (length A) ((A @ B) @ other # rest)
            = insert_loop c (length (A @ [])) (length A) (A @ [] @ rest)"
          using insert_loop_delete [OF nb True inc, of "A @ B" "length A" rest] ge B_empty by simp
        have "\<exists>A' B'. insert_loop c (length (A @ [])) (length A) (A @ [] @ rest) = Inr (length A', A' @ B')
            \<and> list_all nonempty (A' @ B') \<and> sorted_wrt before (A' @ B')
            \<and> (\<forall>x\<in>set A'. chunk_end x < chunk_start c) \<and> (\<forall>x\<in>set B'. chunk_end c < chunk_start x)"
          using neA ne_rest chA ch_rest A_rest bA by (intro Cons.IH) (auto simp: sorted_wrt_append)
        then show ?thesis using eq by simp
      next
        case ninc: False
        obtain ls rs where cut: "cut other c = Inr (ls @ rs)"
          and ls: "if chunk_start other < chunk_start c
                   then \<exists>l. ls = [l] \<and> chunk_start l = chunk_start other \<and> chunk_end l = chunk_start c - 1
                   else ls = []"
          and rs: "if chunk_end c < chunk_end other
                   then \<exists>r. rs = [r] \<and> chunk_start r = chunk_end c + 1 \<and> chunk_end r = chunk_end other
                   else rs = []"
          using cut_shape [OF oc] by blast
        have len_ls: "(if chunk_start other < chunk_start c then length A + 1 else length A) = length (A @ ls)"
          using ls by (auto split: if_splits)
        have eq: "insert_loop c (length (A @ B)) (length A) ((A @ B) @ other # rest)
            = insert_loop c (length ((A @ ls) @ rs)) (length (A @ ls)) ((A @ ls) @ rs @ rest)"
          using insert_loop_cut [OF nb True ninc cut, of A "length A" rest, unfolded len_ls]
          by (simp add: B_empty)
        have inter: "chunk_start c \<le> chunk_end other" "chunk_start other \<le> chunk_end c"
          using True by (auto simp: intersects_iff)
        have ls_ok: "\<forall>l\<in>set ls. chunk_start l = chunk_start other \<and> chunk_end l = chunk_start c - 1
            \<and> chunk_start other < chunk_start c"
          using ls by (auto split: if_splits)
        have rs_ok: "\<forall>r\<in>set rs. chunk_start r = chunk_end c + 1 \<and> chunk_end r = chunk_end other
            \<and> chunk_end c < chunk_end other"
          using rs by (auto split: if_splits)
        have 1: "list_all nonempty ((A @ ls) @ rs @ rest)"
          using neA ne_rest ls_ok rs_ok by (auto simp: list_all_iff nonempty_def)
        have chl: "sorted_wrt before ls" using ls by (auto split: if_splits)
        have chr: "sorted_wrt before rs" using rs by (auto split: if_splits)
        have 2: "sorted_wrt before ((A @ ls) @ rs @ rest)"
          using chA ch_rest A_rest A_o o_rest ls_ok rs_ok chl chr inter ne_c ne_o
          by (auto simp: sorted_wrt_append before_def)
        have 3: "\<forall>x\<in>set (A @ ls). chunk_end x < chunk_start c"
          using bA ls_ok by auto
        have 4: "\<forall>x\<in>set rs. chunk_end c < chunk_start x"
          using rs_ok by auto
        have "\<exists>A' B'. insert_loop c (length ((A @ ls) @ rs)) (length (A @ ls)) ((A @ ls) @ rs @ rest)
              = Inr (length A', A' @ B')
            \<and> list_all nonempty (A' @ B') \<and> sorted_wrt before (A' @ B')
            \<and> (\<forall>x\<in>set A'. chunk_end x < chunk_start c) \<and> (\<forall>x\<in>set B'. chunk_end c < chunk_start x)"
          using 1 2 3 4 by (rule Cons.IH)
        then show ?thesis using eq by simp
      qed
    qed
  qed
qed

lemma insertDiskChunk_shape:
  assumes "nonempty c" "store_inv ks"
  shows "\<exists>A B. insertDiskChunk c ins ks = Inr (if ins then A @ c # B else A @ B)
     \<and> list_all nonempty (A @ B) \<and> sorted_wrt before (A @ B)
     \<and> (\<forall>x\<in>set A. chunk_end x < chunk_start c) \<and> (\<forall>x\<in>set B. chunk_end c < chunk_start x)"
proof -
  have "\<exists>A' B'. insert_loop c 0 0 ks = Inr (length A', A' @ B')
        \<and> list_all nonempty (A' @ B') \<and> sorted_wrt before (A' @ B')
        \<and> (\<forall>x\<in>set A'. chunk_end x < chunk_start c) \<and> (\<forall>x\<in>set B'. chunk_end c < chunk_start x)"
    using insert_loop_shape [OF assms(1), of "[]" "[]" ks] assms(2) by (simp add: store_inv_chain)
  then obtain A B where l: "insert_loop c 0 0 ks = Inr (length A, A @ B)"
    and p: "list_all nonempty (A @ B)" "sorted_wrt before (A @ B)"
      "\<forall>x\<in>set A. chunk_end x < chunk_start c" "\<forall>x\<in>set B. chunk_end c < chunk_start x"
    by auto
  have "insertDiskChunk c ins ks = Inr (if ins then A @ c # B else A @ B)"
    by (simp add: insertDiskChunk_def l splice_def)
  with p show ?thesis by blast
qed

text \<open>
  Claim C2 as it is stated asks of the store only that it is sorted ascending by
  \<open>start\<close> and that no two chunks intersect. That is not enough: \<open>discard(0, 10)\<close> and
  then \<open>discard(5, 0)\<close> leave the sorted, non-intersecting store \<open>[0, 9], [5, 4]\<close>, whose
  second chunk is empty, and inserting the chunk \<open>[3, 6]\<close> into it leaves a store that
  is not sorted, for \<open>insert = true\<close> and for \<open>insert = false\<close>.
\<close>

theorem insertDiskChunk_empty_chunk_counterexample:
  "knownChunks (discard_calls (Disk True True False True) [(0, 10), (5, 0)])
     = [Discard 0 9, Discard 5 4]
   \<and> sorted_by_start [Discard 0 9, Discard 5 4]
   \<and> non_overlapping [Discard 0 9, Discard 5 4]
   \<and> chunk_start (Discard 3 6) \<le> chunk_end (Discard 3 6)
   \<and> insertDiskChunk (Discard 3 6) True [Discard 0 9, Discard 5 4]
       = Inr [Discard 0 2, Discard 7 9, Discard 3 6, Discard 5 4]
   \<and> \<not> sorted_by_start [Discard 0 2, Discard 7 9, Discard 3 6, Discard 5 4]
   \<and> insertDiskChunk (Discard 3 6) False [Discard 0 9, Discard 5 4]
       = Inr [Discard 0 2, Discard 7 9, Discard 5 4]
   \<and> \<not> sorted_by_start [Discard 0 2, Discard 7 9, Discard 5 4]"
  by code_simp

text \<open>
  Claim C2, amended. For a store whose chunks all satisfy \<open>start \<le> end\<close>, are sorted
  ascending by \<open>start\<close> and pairwise do not intersect, and a chunk \<open>c\<close> with
  \<open>c.start \<le> c.end\<close>, \<open>_insertDiskChunk(c, insert)\<close> returns (it raises no exception)
  and the store it leaves is again sorted ascending by \<open>start\<close> with pairwise
  non-intersecting chunks that all satisfy \<open>start \<le> end\<close>, for \<open>insert = true\<close> and for
  \<open>insert = false\<close>.
\<close>

theorem insertDiskChunk_restores_invariant:
  assumes "store_inv ks" "chunk_start c \<le> chunk_end c"
  shows "\<exists>ks'. insertDiskChunk c ins ks = Inr ks' \<and> store_inv ks'"
proof -
  have nc: "nonempty c" using assms by (simp add: nonempty_def)
  from insertDiskChunk_shape [OF nc assms(1), of ins]
  obtain A B where r: "insertDiskChunk c ins ks = Inr (if ins then A @ c # B else A @ B)"
    and p: "list_all nonempty (A @ B)" "sorted_wrt before (A @ B)"
      "\<forall>x\<in>set A. chunk_end x < chunk_start c" "\<forall>x\<in>set B. chunk_end c < chunk_start x"
    by blast
  have "store_inv (A @ B)" using p by (simp add: store_inv_chain)
  moreover have "store_inv (A @ c # B)"
    using p nc by (auto simp: store_inv_chain sorted_wrt_append before_def)
  ultimately show ?thesis using r by auto
qed

theorem insertDiskChunk_restores_invariant_witness:
  "store_inv [Discard 0 3, Discard 5 14, Data 20 [1, 2]]
   \<and> insertDiskChunk (Data 2 [89, 89, 89, 89, 89]) True [Discard 0 3, Discard 5 14, Data 20 [1, 2]]
       = Inr [Discard 0 1, Data 2 [89, 89, 89, 89, 89], Discard 7 14, Data 20 [1, 2]]
   \<and> store_inv [Discard 0 1, Data 2 [89, 89, 89, 89, 89], Discard 7 14, Data 20 [1, 2]]
   \<and> insertDiskChunk (Data 2 [89, 89, 89, 89, 89]) False [Discard 0 3, Discard 5 14, Data 20 [1, 2]]
       = Inr [Discard 0 1, Discard 7 14, Data 20 [1, 2]]
   \<and> store_inv [Discard 0 1, Discard 7 14, Data 20 [1, 2]]"
proof -
  have s: "store_inv [Discard 0 3, Discard 5 14, Data 20 [1, 2]]"
    by (simp add: store_inv_def nonempty_def intersects_iff)
  have c: "chunk_start (Data 2 [89, 89, 89, 89, 89]) \<le> chunk_end (Data 2 [89, 89, 89, 89, 89])"
    by simp
  have t: "insertDiskChunk (Data 2 [89, 89, 89, 89, 89]) True [Discard 0 3, Discard 5 14, Data 20 [1, 2]]
       = Inr [Discard 0 1, Data 2 [89, 89, 89, 89, 89], Discard 7 14, Data 20 [1, 2]]"
    by code_simp
  have f: "insertDiskChunk (Data 2 [89, 89, 89, 89, 89]) False [Discard 0 3, Discard 5 14, Data 20 [1, 2]]
       = Inr [Discard 0 1, Discard 7 14, Data 20 [1, 2]]"
    by code_simp
  from insertDiskChunk_restores_invariant [OF s c, of True]
       insertDiskChunk_restores_invariant [OF s c, of False] s t f
  show ?thesis by simp
qed


section \<open>Writes and discard records\<close>







section \<open>Read plans\<close>

lemma intersections_Nil [simp]: "intersections iv [] = []"
  by (simp add: intersections_def map_filter_simps)

lemma intersections_Cons:
  "intersections (a, z) (k # ks) =
     (if max a (chunk_start k) \<le> min z (chunk_end k)
      then slice k (max a (chunk_start k)) (min z (chunk_end k)) # intersections (a, z) ks
      else intersections (a, z) ks)"
  by (simp add: intersections_def map_filter_simps iisect_def interval_def Let_def)


lemma intersections_elem:
  assumes "c \<in> set (intersections (a, z) ks)"
  shows "\<exists>k\<in>set ks. c = slice k (max a (chunk_start k)) (min z (chunk_end k))
           \<and> max a (chunk_start k) \<le> min z (chunk_end k)"
  using assms by (induction ks) (auto simp: intersections_Cons split: if_splits)

lemma slice_inter_props:
  assumes "max a (chunk_start k) \<le> min z (chunk_end k)"
  defines "c \<equiv> slice k (max a (chunk_start k)) (min z (chunk_end k))"
  shows "chunk_start c = max a (chunk_start k)" "chunk_end c = min z (chunk_end k)"
    "is_discard c = is_discard k" "covers c p \<Longrightarrow> byte_at c p = byte_at k p"
proof -
  show s: "chunk_start c = max a (chunk_start k)" by (simp add: c_def)
  show e: "chunk_end c = min z (chunk_end k)"
    unfolding c_def using assms(1) by (intro slice_end) auto
  show "is_discard c = is_discard k" by (simp add: c_def)
  show "covers c p \<Longrightarrow> byte_at c p = byte_at k p"
    unfolding covers_def s e unfolding c_def using assms(1) by (intro slice_byte_at) auto
qed

lemma intersections_chain:
  assumes "sorted_wrt before ks"
  shows "sorted_wrt before (intersections (a, z) ks)"
  using assms
proof (induction ks)
  case Nil
  show ?case by simp
next
  case (Cons k ks)
  have "before (slice k (max a (chunk_start k)) (min z (chunk_end k))) y"
    if y: "y \<in> set (intersections (a, z) ks)" and m: "max a (chunk_start k) \<le> min z (chunk_end k)" for y
  proof -
    from intersections_elem [OF y] obtain k' where k': "k' \<in> set ks"
      "y = slice k' (max a (chunk_start k')) (min z (chunk_end k'))"
      "max a (chunk_start k') \<le> min z (chunk_end k')" by blast
    have "before k k'" using Cons.prems k' by simp
    then show ?thesis
      using slice_inter_props(2) [OF m] slice_inter_props(1) [OF k'(3)] k'(2)
      by (simp add: before_def)
  qed
  with Cons show ?case by (auto simp: intersections_Cons)
qed

lemma tiles_length: "tiles a es z \<Longrightarrow> sum_list (map entry_length es) = z - a + 1"
  by (induction es arbitrary: a) (auto simp: entry_length_def)

lemma tiles_append:
  "tiles a (xs @ ys) z = (\<exists>m. tiles a xs (m - 1) \<and> tiles m ys z)"
  by (induction xs arbitrary: a) auto

lemma plan_loop_tiles:
  assumes "sorted_wrt before cs" "\<forall>c\<in>set cs. chunk_start c \<le> chunk_end c \<and> cur \<le> chunk_start c"
    "cs \<noteq> []"
  shows "tiles cur (plan_loop cur cs) (chunk_end (last cs))"
  using assms
proof (induction cs arbitrary: cur)
  case Nil
  then show ?case by simp
next
  case (Cons c cs)
  show ?case
  proof (cases cs)
    case Nil
    then show ?thesis using Cons.prems by auto
  next
    case (Cons c' cs')
    have "tiles (chunk_end c + 1) (plan_loop (chunk_end c + 1) cs) (chunk_end (last cs))"
      using Cons.prems Cons by (intro Cons.IH) (auto simp: before_def)
    then show ?thesis using Cons.prems Cons by auto
  qed
qed

lemma plan_loop_known: "Known c \<in> set (plan_loop cur cs) \<longleftrightarrow> c \<in> set cs"
  by (induction cs arbitrary: cur) auto

lemma intersections_bounds:
  assumes "c \<in> set (intersections (a, z) ks)"
  shows "chunk_start c \<le> chunk_end c \<and> a \<le> chunk_start c \<and> chunk_end c \<le> z"
proof -
  from intersections_elem [OF assms] obtain k where k:
    "c = slice k (max a (chunk_start k)) (min z (chunk_end k))"
    "max a (chunk_start k) \<le> min z (chunk_end k)" by blast
  show ?thesis using slice_inter_props(1,2) [OF k(2), folded k(1)] k(2) by auto
qed

text \<open>The plan tiles the request: no gap, no overlap, ascending.\<close>

lemma createReadPlan_tiles:
  assumes "store_inv (knownChunks d)" "1 \<le> len"
  shows "tiles offset (createReadPlan d offset len) (offset + len - 1)"
proof -
  define z where "z = offset + len - 1"
  define chunks where "chunks = (if \<not> discardIsZero d
      then filter (\<lambda>chunk. \<not> is_discard chunk) (knownChunks d) else knownChunks d)"
  define inters where "inters = intersections (offset, z) chunks"
  have plan: "createReadPlan d offset len = (if inters = [] then [Raw offset z]
      else plan_loop offset inters
           @ (if z > chunk_end (last inters) then [Raw (chunk_end (last inters) + 1) z] else []))"
    by (simp add: createReadPlan_def Let_def inters_def chunks_def z_def)
  have ch: "sorted_wrt before chunks"
    using assms(1) by (auto simp: chunks_def store_inv_chain intro: sorted_wrt_filter)
  have ich: "sorted_wrt before inters"
    unfolding inters_def using ch by (rule intersections_chain)
  have bounds: "\<forall>c\<in>set inters. chunk_start c \<le> chunk_end c \<and> offset \<le> chunk_start c \<and> chunk_end c \<le> z"
    unfolding inters_def using intersections_bounds by blast
  have "tiles offset (createReadPlan d offset len) z"
  proof (cases "inters = []")
    case True
    then show ?thesis using assms(2) by (simp add: plan z_def)
  next
    case False
    have 1: "tiles offset (plan_loop offset inters) (chunk_end (last inters))"
      using ich bounds False by (intro plan_loop_tiles) auto
    have "chunk_end (last inters) \<le> z" using bounds False by simp
    then have 2: "tiles (chunk_end (last inters) + 1)
        (if z > chunk_end (last inters) then [Raw (chunk_end (last inters) + 1) z] else []) z"
      by auto
    have "\<exists>m. tiles offset (plan_loop offset inters) (m - 1)
        \<and> tiles m (if z > chunk_end (last inters) then [Raw (chunk_end (last inters) + 1) z] else []) z"
      using 1 2 by (intro exI [of _ "chunk_end (last inters) + 1"]) simp
    then show ?thesis using False by (simp only: plan tiles_append if_False)
  qed
  then show ?thesis by (simp add: z_def)
qed

text \<open>
  Claim C1. For a request \<open>(offset, len)\<close> with \<open>len \<ge> 1\<close> on a store that satisfies the
  invariant, the plan of \<open>_createReadPlan\<close> covers exactly \<open>[offset, offset + len - 1]\<close>:
  its entries are non-empty, the first starts at \<open>offset\<close>, each next one starts right
  after the one before ends and the last ends at \<open>offset + len - 1\<close>; their lengths sum
  to \<open>len\<close>; and every chunk entry is the part of a stored chunk on exactly the
  intersection of that chunk with the request, of the same variant and with the same
  bytes.
\<close>

theorem createReadPlan_covers:
  assumes "store_inv (knownChunks d)" "1 \<le> len"
  shows "tiles offset (createReadPlan d offset len) (offset + len - 1)
     \<and> sum_list (map entry_length (createReadPlan d offset len)) = len
     \<and> (\<forall>c. Known c \<in> set (createReadPlan d offset len) \<longrightarrow>
          (\<exists>k\<in>set (knownChunks d).
              chunk_start c = max offset (chunk_start k)
            \<and> chunk_end c = min (offset + len - 1) (chunk_end k)
            \<and> chunk_start c \<le> chunk_end c
            \<and> is_discard c = is_discard k
            \<and> (\<forall>p. covers c p \<longrightarrow> byte_at c p = byte_at k p)))"
proof -
  define z where "z = offset + len - 1"
  define chunks where "chunks = (if \<not> discardIsZero d
      then filter (\<lambda>chunk. \<not> is_discard chunk) (knownChunks d) else knownChunks d)"
  define inters where "inters = intersections (offset, z) chunks"
  define plan where "plan = createReadPlan d offset len"
  have plan: "plan = (if inters = [] then [Raw offset z]
      else plan_loop offset inters
           @ (if z > chunk_end (last inters) then [Raw (chunk_end (last inters) + 1) z] else []))"
    by (simp add: plan_def createReadPlan_def Let_def inters_def chunks_def z_def)
  have sub: "set chunks \<subseteq> set (knownChunks d)" by (auto simp: chunks_def)
  have el: "\<exists>k\<in>set (knownChunks d).
              chunk_start c = max offset (chunk_start k) \<and> chunk_end c = min z (chunk_end k)
            \<and> chunk_start c \<le> chunk_end c \<and> is_discard c = is_discard k
            \<and> (\<forall>p. covers c p \<longrightarrow> byte_at c p = byte_at k p)"
    if "c \<in> set inters" for c
  proof -
    from intersections_elem [OF that [unfolded inters_def]] obtain k where k: "k \<in> set chunks"
      "c = slice k (max offset (chunk_start k)) (min z (chunk_end k))"
      "max offset (chunk_start k) \<le> min z (chunk_end k)" by blast
    show ?thesis
      using slice_inter_props [OF k(3)] k sub by (intro bexI [of _ k]) auto
  qed
  have t: "tiles offset plan z"
    unfolding plan_def z_def using assms by (rule createReadPlan_tiles)
  have k: "\<forall>c. Known c \<in> set plan \<longrightarrow> c \<in> set inters"
    by (auto simp: plan plan_loop_known split: if_splits)
  have "sum_list (map entry_length plan) = len"
    using tiles_length [OF t] by (simp add: z_def)
  then show ?thesis using t k el unfolding plan_def z_def by blast
qed

theorem createReadPlan_covers_witness:
  "store_inv (knownChunks ((Disk True True False True)\<lparr>knownChunks := [Data 10 [1, 2, 3, 4, 5, 6, 7, 8, 9, 10]]\<rparr>))
   \<and> createReadPlan ((Disk True True False True)\<lparr>knownChunks := [Data 10 [1, 2, 3, 4, 5, 6, 7, 8, 9, 10]]\<rparr>) 5 10
       = [Raw 5 9, Known (Data 10 [1, 2, 3, 4, 5])]
   \<and> tiles 5 [Raw 5 9, Known (Data 10 [1, 2, 3, 4, 5])] 14
   \<and> sum_list (map entry_length [Raw 5 9, Known (Data 10 [1, 2, 3, 4, 5])]) = 10"
proof -
  let ?d = "(Disk True True False True)\<lparr>knownChunks := [Data 10 [1, 2, 3, 4, 5, 6, 7, 8, 9, 10]]\<rparr>"
  have s: "store_inv (knownChunks ?d)"
    by (simp add: store_inv_def nonempty_def)
  have p: "createReadPlan ?d 5 10 = [Raw 5 9, Known (Data 10 [1, 2, 3, 4, 5])]"
    by code_simp
  have l: "(1 :: int) \<le> 10" by simp
  from createReadPlan_covers [OF s l, of 5] show ?thesis
    unfolding p using s by simp
qed


section \<open>Reading back what was written\<close>









section \<open>Reading a discarded range\<close>

















end
